theory Spec2Isabelle
  imports Complex_Main "HOL-Library.Sublist"
begin

section \<open>Data model of \<open>quantum_blockchain.py\<close>\<close>

text \<open>
  A transaction is a Python \<open>Dict[str, Any]\<close>. The values the ledger itself looks at
  are the strings under \<open>"from"\<close> and \<open>"to"\<close> and the number under \<open>"amount"\<close>;
  every other value is only stored and serialised. The value type holds the JSON scalars
  \<open>None\<close>, \<open>bool\<close>, \<open>int\<close> (unbounded) and \<open>str\<close>. Nested lists and dictionaries are
  left out, and so are Python floats, whose arithmetic is not exact: balances are computed
  over integer amounts.
\<close>

datatype pyval = VNone | VBool bool | VInt int | VStr string

type_synonym transaction = "string \<rightharpoonup> pyval"

text \<open>The exceptions the module can raise.\<close>

datatype error = ValueError | IndexError | TypeError

text \<open>
  The dataclass \<open>Block\<close>. The timestamp is a reading of the clock; the ledger stores it and
  passes it to the digest, and never computes with it.
\<close>

record block =
  index :: int
  timestamp :: real
  transactions :: "transaction list"
  previous_hash :: string
  nonce :: int
  hash :: string

text \<open>
  \<open>calculate_hash\<close> serialises the five fields with \<open>json.dumps(..., sort_keys=True)\<close> and
  returns \<open>hashlib.sha3_256(...).hexdigest()\<close>. Both are library functions; their composition
  is a parameter of the model: a function from the five serialised fields to the hex string.
\<close>

type_synonym digest = "int \<Rightarrow> real \<Rightarrow> transaction list \<Rightarrow> string \<Rightarrow> int \<Rightarrow> string"

definition calculate_hash :: "digest \<Rightarrow> block \<Rightarrow> string" where
  "calculate_hash dg b = dg (index b) (timestamp b) (transactions b) (previous_hash b) (nonce b)"

text \<open>
  The generated \<open>__init__\<close> followed by \<open>__post_init__\<close>: \<open>nonce\<close> defaults to 0, \<open>hash\<close> is not
  an init argument and starts as the empty string, which \<open>__post_init__\<close> replaces by the digest.
\<close>

definition Block :: "digest \<Rightarrow> int \<Rightarrow> real \<Rightarrow> transaction list \<Rightarrow> string \<Rightarrow> block" where
  "Block dg i ts txs prev =
     (let b = \<lparr>index = i, timestamp = ts, transactions = txs, previous_hash = prev,
                nonce = 0, hash = []\<rparr>
      in if hash b = [] then b\<lparr>hash := calculate_hash dg b\<rparr> else b)"

text \<open>\<open>str.startswith\<close>.\<close>

fun startswith :: "string \<Rightarrow> string \<Rightarrow> bool" where
  "startswith s [] = True"
| "startswith [] (c # t) = False"
| "startswith (x # s) (c # t) = (x = c \<and> startswith s t)"

text \<open>\<open>"0" * difficulty\<close>: a non-positive count gives the empty string.\<close>

definition zeros :: "int \<Rightarrow> string" where
  "zeros difficulty = replicate (nat difficulty) CHR ''0''"

text \<open>One pass through the body of the mining loop.\<close>

definition bump :: "digest \<Rightarrow> block \<Rightarrow> block" where
  "bump dg b = (let b' = b\<lparr>nonce := nonce b + 1\<rparr> in b'\<lparr>hash := calculate_hash dg b'\<rparr>)"

text \<open>
  The \<open>while\<close> loop of \<open>mine_block\<close>. It has no bound, so the model is a partial function:
  \<open>None\<close> means the loop never exits.
\<close>

partial_function (option) mine_loop :: "digest \<Rightarrow> string \<Rightarrow> block \<Rightarrow> block option" where
  "mine_loop dg target b =
     (if \<not> startswith (hash b) target then mine_loop dg target (bump dg b) else Some b)"

definition mine_block :: "digest \<Rightarrow> block \<Rightarrow> int \<Rightarrow> block option" where
  "mine_block dg b difficulty = mine_loop dg (zeros difficulty) b"

section \<open>The ledger: class \<open>QuantumBlockchain\<close>\<close>

record ledger =
  chain :: "block list"
  difficulty :: int
  pending_transactions :: "transaction list"
  mining_reward :: int

definition genesis_transaction :: transaction where
  "genesis_transaction =
     [''type'' \<mapsto> VStr ''genesis'',
      ''message'' \<mapsto> VStr ''ScrollSoul Sovereign Treasury Genesis'']"

text \<open>
  \<open>_create_genesis_block\<close>; \<open>now\<close> is the reading of \<open>time.time()\<close>. The result is \<open>None\<close>
  when mining the genesis block never returns.
\<close>

definition create_genesis_block :: "digest \<Rightarrow> real \<Rightarrow> ledger \<Rightarrow> ledger option" where
  "create_genesis_block dg now s =
     (case mine_block dg (Block dg 0 now [genesis_transaction] ''0'') (difficulty s) of
        None \<Rightarrow> None
      | Some genesis_block \<Rightarrow> Some (s\<lparr>chain := chain s @ [genesis_block]\<rparr>))"

text \<open>The constructor \<open>QuantumBlockchain.__init__\<close>.\<close>

definition QuantumBlockchain :: "digest \<Rightarrow> real \<Rightarrow> int \<Rightarrow> ledger option" where
  "QuantumBlockchain dg now d =
     create_genesis_block dg now
       \<lparr>chain = [], difficulty = d, pending_transactions = [], mining_reward = 100\<rparr>"

text \<open>\<open>self.chain[-1]\<close> raises \<open>IndexError\<close> on an empty list.\<close>

definition get_latest_block :: "ledger \<Rightarrow> error + block" where
  "get_latest_block s = (case chain s of [] \<Rightarrow> Inl IndexError | _ # _ \<Rightarrow> Inr (last (chain s)))"

text \<open>
  A method that changes the ledger returns its outcome (the exception raised, or the value
  returned) together with the ledger it leaves behind.
\<close>

definition add_transaction :: "ledger \<Rightarrow> transaction \<Rightarrow> (error + unit) \<times> ledger" where
  "add_transaction s tx =
     (if tx ''from'' = None \<or> tx ''to'' = None \<or> tx ''amount'' = None
      then (Inl ValueError, s)
      else (Inr (), s\<lparr>pending_transactions := pending_transactions s @ [tx]\<rparr>))"

definition reward_transaction :: "ledger \<Rightarrow> string \<Rightarrow> transaction" where
  "reward_transaction s miner_address =
     [''from'' \<mapsto> VStr ''system'',
      ''to'' \<mapsto> VStr miner_address,
      ''amount'' \<mapsto> VInt (mining_reward s),
      ''type'' \<mapsto> VStr ''mining_reward'']"

text \<open>
  \<open>mine_pending_transactions\<close>. The arguments of \<open>Block(...)\<close> are evaluated first, so an empty
  chain raises \<open>IndexError\<close> before anything is changed. \<open>None\<close>: the mining loop never returns.
\<close>

definition mine_pending_transactions ::
  "digest \<Rightarrow> real \<Rightarrow> ledger \<Rightarrow> string \<Rightarrow> ((error + block) \<times> ledger) option" where
  "mine_pending_transactions dg now s miner_address =
     (case get_latest_block s of
        Inl e \<Rightarrow> Some (Inl e, s)
      | Inr latest \<Rightarrow>
          (case mine_block dg
                  (Block dg (int (length (chain s))) now (pending_transactions s) (hash latest))
                  (difficulty s) of
             None \<Rightarrow> None
           | Some new_block \<Rightarrow>
               Some (Inr new_block,
                     s\<lparr>chain := chain s @ [new_block],
                       pending_transactions := [reward_transaction s miner_address]\<rparr>)))"

subsection \<open>\<open>get_balance\<close>\<close>








subsection \<open>\<open>is_chain_valid\<close>\<close>

text \<open>The loop \<open>for i in range(1, len(self.chain))\<close> with its three early returns.\<close>

function is_chain_valid_loop :: "digest \<Rightarrow> ledger \<Rightarrow> nat \<Rightarrow> bool" where
  "is_chain_valid_loop dg s i =
     (if i < length (chain s) then
        (let current_block = chain s ! i;
             previous_block = chain s ! (i - 1)
         in if hash current_block \<noteq> calculate_hash dg current_block then False
            else if previous_hash current_block \<noteq> hash previous_block then False
            else if \<not> startswith (hash current_block) (zeros (difficulty s)) then False
            else is_chain_valid_loop dg s (i + 1))
      else True)"
  by pat_completeness auto
termination
  by (relation "measure (\<lambda>(dg, s, i). length (chain s) - i)") auto

declare is_chain_valid_loop.simps [simp del]

definition is_chain_valid :: "digest \<Rightarrow> ledger \<Rightarrow> bool" where
  "is_chain_valid dg s = is_chain_valid_loop dg s 1"

subsection \<open>Sequences of calls\<close>

text \<open>
  A caller of the public interface adds transactions and mines; each mining call reads the
  clock. An exception leaves the ledger as the method left it and the caller goes on; a call
  that never returns ends the run (\<open>None\<close>).
\<close>

datatype call = Add_transaction transaction | Mine_pending_transactions string real

fun exec_call :: "digest \<Rightarrow> ledger \<Rightarrow> call \<Rightarrow> ledger option" where
  "exec_call dg s (Add_transaction tx) = Some (snd (add_transaction s tx))"
| "exec_call dg s (Mine_pending_transactions miner_address now) =
     map_option snd (mine_pending_transactions dg now s miner_address)"

fun run :: "digest \<Rightarrow> ledger \<Rightarrow> call list \<Rightarrow> ledger option" where
  "run dg s [] = Some s"
| "run dg s (c # cs) = (case exec_call dg s c of None \<Rightarrow> None | Some s' \<Rightarrow> run dg s' cs)"

section \<open>Notions of the specification\<close>

text \<open>The number of leading \<open>0\<close> characters of a hash.\<close>

definition leading_zeros :: "string \<Rightarrow> nat" where
  "leading_zeros h = length (takeWhile (\<lambda>c. c = CHR ''0'') h)"





text \<open>
  What is known of the library digest: \<open>hexdigest()\<close> of SHA3-256 is a string of 64
  hexadecimal digits.
\<close>

definition hexdigest256 :: "digest \<Rightarrow> bool" where
  "hexdigest256 dg =
     (\<forall>i ts txs p n. length (dg i ts txs p n) = 64 \<and> set (dg i ts txs p n) \<subseteq> set ''0123456789abcdef'')"

text \<open>
  A small digest of the same output format, to run the definitions on concrete ledgers:
  the number of leading zeros is decided by the index, the nonce and the number of
  transactions.
\<close>

definition sample_digest :: digest where
  "sample_digest i ts txs p n =
     (let k = (i + n + int (length txs)) mod 3
      in if k = 0 then ''ffffffffffffffffffffffffffffffffffffffffffffffffffffffffffffffff''
         else if k = 1 then ''0fffffffffffffffffffffffffffffffffffffffffffffffffffffffffffffff''
         else ''00ffffffffffffffffffffffffffffffffffffffffffffffffffffffffffffff'')"

subsection \<open>A sample run\<close>

text \<open>
  The scenario of the specification under the sample digest: a ledger of difficulty 2, one
  transfer from alice to bob, one block mined by miner1.
\<close>

definition sample_transaction :: transaction where
  "sample_transaction = [''from'' \<mapsto> VStr ''alice'', ''to'' \<mapsto> VStr ''bob'', ''amount'' \<mapsto> VInt 50]"

definition sample_genesis :: block where
  "sample_genesis =
     \<lparr>index = 0, timestamp = 0, transactions = [genesis_transaction], previous_hash = ''0'',
      nonce = 1, hash = ''00ffffffffffffffffffffffffffffffffffffffffffffffffffffffffffffff''\<rparr>"

definition sample_block :: block where
  "sample_block =
     \<lparr>index = 1, timestamp = 1, transactions = [sample_transaction],
      previous_hash = ''00ffffffffffffffffffffffffffffffffffffffffffffffffffffffffffffff'',
      nonce = 0, hash = ''00ffffffffffffffffffffffffffffffffffffffffffffffffffffffffffffff''\<rparr>"

definition sample_ledger0 :: ledger where
  "sample_ledger0 =
     \<lparr>chain = [sample_genesis], difficulty = 2, pending_transactions = [], mining_reward = 100\<rparr>"

definition sample_ledger1 :: ledger where
  "sample_ledger1 =
     \<lparr>chain = [sample_genesis, sample_block], difficulty = 2,
      pending_transactions =
        [[''from'' \<mapsto> VStr ''system'', ''to'' \<mapsto> VStr ''miner1'', ''amount'' \<mapsto> VInt 100,
          ''type'' \<mapsto> VStr ''mining_reward'']],
      mining_reward = 100\<rparr>"

definition sample_calls :: "call list" where
  "sample_calls = [Add_transaction sample_transaction, Mine_pending_transactions ''miner1'' 1]"

section \<open>Elementary facts\<close>

lemma startswith_prefix: "startswith s t = prefix t s"
  by (induction s t rule: startswith.induct) auto

subsection \<open>The mining loop\<close>

lemma bump_fields [simp]:
  "index (bump dg b) = index b"
  "timestamp (bump dg b) = timestamp b"
  "transactions (bump dg b) = transactions b"
  "previous_hash (bump dg b) = previous_hash b"
  "nonce (bump dg b) = nonce b + 1"
  by (simp_all add: bump_def Let_def)

lemma bump_hash: "hash (bump dg b) = calculate_hash dg (bump dg b)"
  by (simp add: bump_def Let_def calculate_hash_def)

lemma bump_pow_fields [simp]:
  "index ((bump dg ^^ k) b) = index b"
  "timestamp ((bump dg ^^ k) b) = timestamp b"
  "transactions ((bump dg ^^ k) b) = transactions b"
  "previous_hash ((bump dg ^^ k) b) = previous_hash b"
  "nonce ((bump dg ^^ k) b) = nonce b + int k"
  by (induction k) simp_all

lemma bump_pow_hash: "0 < k \<Longrightarrow> hash ((bump dg ^^ k) b) = calculate_hash dg ((bump dg ^^ k) b)"
  by (cases k) (simp_all add: bump_hash)

lemma bump_pow_hash_digest:
  "0 < k \<Longrightarrow> hash ((bump dg ^^ k) b) =
     dg (index b) (timestamp b) (transactions b) (previous_hash b) (nonce b + int k)"
  by (simp add: bump_pow_hash calculate_hash_def)

lemma mine_loop_skip:
  "(\<And>j. j < k \<Longrightarrow> \<not> startswith (hash ((bump dg ^^ j) b)) target) \<Longrightarrow>
   mine_loop dg target b = mine_loop dg target ((bump dg ^^ k) b)"
proof (induction k arbitrary: b)
  case 0
  show ?case by simp
next
  case (Suc k)
  have first: "\<not> startswith (hash b) target"
    using Suc.prems [of 0] by simp
  have rest: "\<not> startswith (hash ((bump dg ^^ j) (bump dg b))) target" if "j < k" for j
    using Suc.prems [of "Suc j"] that by (simp add: funpow_swap1)
  have "mine_loop dg target b = mine_loop dg target (bump dg b)"
    using first by (subst mine_loop.simps) simp
  also have "\<dots> = mine_loop dg target ((bump dg ^^ k) (bump dg b))"
    using rest by (rule Suc.IH)
  finally show ?case by (simp add: funpow_swap1)
qed

lemma mine_loop_Some:
  assumes "mine_loop dg target b = Some r"
  shows "\<exists>k. r = (bump dg ^^ k) b \<and> startswith (hash r) target \<and>
       (\<forall>j < k. \<not> startswith (hash ((bump dg ^^ j) b)) target)"
proof (rule mine_loop.raw_induct [where P = "\<lambda>dg target b r.
         \<exists>k. r = (bump dg ^^ k) b \<and> startswith (hash r) target \<and>
           (\<forall>j < k. \<not> startswith (hash ((bump dg ^^ j) b)) target)", OF _ assms])
  fix loop :: "digest \<Rightarrow> string \<Rightarrow> block \<Rightarrow> block option" and dg target b r
  assume IH: "\<And>dg target b r. loop dg target b = Some r \<Longrightarrow>
         \<exists>k. r = (bump dg ^^ k) b \<and> startswith (hash r) target \<and>
           (\<forall>j < k. \<not> startswith (hash ((bump dg ^^ j) b)) target)"
    and step: "(if \<not> startswith (hash b) target then loop dg target (bump dg b) else Some b) = Some r"
  show "\<exists>k. r = (bump dg ^^ k) b \<and> startswith (hash r) target \<and>
           (\<forall>j < k. \<not> startswith (hash ((bump dg ^^ j) b)) target)"
  proof (cases "startswith (hash b) target")
    case True
    with step have "r = b" by simp
    with True show ?thesis by (intro exI [of _ 0]) simp
  next
    case False
    with step have "loop dg target (bump dg b) = Some r" by simp
    from IH [OF this] obtain k where k: "r = (bump dg ^^ k) (bump dg b)"
      "startswith (hash r) target"
      "\<forall>j < k. \<not> startswith (hash ((bump dg ^^ j) (bump dg b))) target"
      by blast
    have "\<not> startswith (hash ((bump dg ^^ j) b)) target" if "j < Suc k" for j
    proof (cases j)
      case 0
      with False show ?thesis by simp
    next
      case (Suc j')
      with that k(3) show ?thesis by (simp add: funpow_swap1)
    qed
    with k(1,2) show ?thesis
      by (intro exI [of _ "Suc k"]) (simp add: funpow_swap1)
  qed
qed

lemma mine_loop_returns:
  assumes "startswith (hash ((bump dg ^^ k) b)) target"
  shows "\<exists>r. mine_loop dg target b = Some r"
proof -
  define m where "m = (LEAST j. startswith (hash ((bump dg ^^ j) b)) target)"
  have hit: "startswith (hash ((bump dg ^^ m) b)) target"
    unfolding m_def using assms by (rule LeastI)
  have "\<not> startswith (hash ((bump dg ^^ j) b)) target" if "j < m" for j
    using that not_less_Least unfolding m_def by blast
  then have "mine_loop dg target b = mine_loop dg target ((bump dg ^^ m) b)"
    by (rule mine_loop_skip)
  also have "\<dots> = Some ((bump dg ^^ m) b)"
    using hit by (subst mine_loop.simps) simp
  finally show ?thesis by blast
qed

lemma mine_loop_returns_iff:
  "(\<exists>r. mine_loop dg target b = Some r) \<longleftrightarrow> (\<exists>k. startswith (hash ((bump dg ^^ k) b)) target)"
  using mine_loop_Some mine_loop_returns by blast

lemma startswith_short: "length h < length t \<Longrightarrow> \<not> startswith h t"
  by (induction h t rule: startswith.induct) auto

lemma startswith_zeros_iff:
  "startswith h (replicate n CHR ''0'') \<longleftrightarrow> n \<le> leading_zeros h"
proof (induction h arbitrary: n)
  case Nil
  show ?case by (cases n) (simp_all add: leading_zeros_def)
next
  case (Cons c h)
  show ?case
  proof (cases n)
    case 0
    then show ?thesis by simp
  next
    case (Suc m)
    with Cons [of m] show ?thesis by (simp add: leading_zeros_def)
  qed
qed

lemma startswith_zeros_leading: "startswith h (zeros d) \<longleftrightarrow> d \<le> int (leading_zeros h)"
  unfolding zeros_def startswith_zeros_iff by linarith

lemma zeros_nonpos [simp]: "d \<le> 0 \<Longrightarrow> zeros d = []"
  by (simp add: zeros_def)

lemma mine_block_Some:
  assumes "mine_block dg b d = Some r"
  shows "\<exists>k. r = (bump dg ^^ k) b \<and> startswith (hash r) (zeros d) \<and>
       (\<forall>j < k. \<not> startswith (hash ((bump dg ^^ j) b)) (zeros d))"
  using assms unfolding mine_block_def by (rule mine_loop_Some)

lemma mine_block_returns_iff:
  "(\<exists>r. mine_block dg b d = Some r) \<longleftrightarrow> (\<exists>k. startswith (hash ((bump dg ^^ k) b)) (zeros d))"
  unfolding mine_block_def by (rule mine_loop_returns_iff)

lemma mine_block_accepts:
  "startswith (hash b) (zeros d) \<Longrightarrow> mine_block dg b d = Some b"
  unfolding mine_block_def by (subst mine_loop.simps) simp

lemma mine_block_zero: "d \<le> 0 \<Longrightarrow> mine_block dg b d = Some b"
  by (rule mine_block_accepts) simp

lemma mine_block_fields:
  assumes "mine_block dg b d = Some r"
  shows "index r = index b" "timestamp r = timestamp b" "transactions r = transactions b"
    "previous_hash r = previous_hash b" "nonce b \<le> nonce r"
  using mine_block_Some [OF assms] by auto

lemma mine_block_prefix:
  "mine_block dg b d = Some r \<Longrightarrow> startswith (hash r) (zeros d)"
  using mine_block_Some by blast


lemma mine_block_None:
  assumes "\<And>k. \<not> startswith (hash ((bump dg ^^ k) b)) (zeros d)"
  shows "mine_block dg b d = None"
proof (cases "mine_block dg b d")
  case None
  then show ?thesis .
next
  case (Some r)
  then have "\<exists>k. startswith (hash ((bump dg ^^ k) b)) (zeros d)"
    using mine_block_returns_iff by blast
  with assms show ?thesis by blast
qed

lemma mine_block_too_hard:
  assumes dg: "\<And>i ts txs p n. length (dg i ts txs p n) = 64"
    and b: "length (hash b) \<le> 64" and d: "64 < d"
  shows "mine_block dg b d = None"
proof (rule mine_block_None)
  fix k
  have "length (hash ((bump dg ^^ k) b)) \<le> 64"
    by (cases k) (simp_all add: b bump_hash calculate_hash_def dg)
  moreover have "length (zeros d) > 64"
    using d by (simp add: zeros_def)
  ultimately show "\<not> startswith (hash ((bump dg ^^ k) b)) (zeros d)"
    by (intro startswith_short) linarith
qed

lemma Block_fields [simp]:
  "index (Block dg i ts txs p) = i"
  "timestamp (Block dg i ts txs p) = ts"
  "transactions (Block dg i ts txs p) = txs"
  "previous_hash (Block dg i ts txs p) = p"
  "nonce (Block dg i ts txs p) = 0"
  "hash (Block dg i ts txs p) = dg i ts txs p 0"
  by (simp_all add: Block_def calculate_hash_def)


subsection \<open>Construction and the two mutating methods\<close>

lemma create_genesis_block_Some:
  assumes "create_genesis_block dg now s = Some s'"
  shows "\<exists>g. mine_block dg (Block dg 0 now [genesis_transaction] ''0'') (difficulty s) = Some g \<and>
           s' = s\<lparr>chain := chain s @ [g]\<rparr>"
  using assms by (auto simp: create_genesis_block_def split: option.splits)

lemma QuantumBlockchain_Some:
  assumes "QuantumBlockchain dg now d = Some s"
  shows "\<exists>g. mine_block dg (Block dg 0 now [genesis_transaction] ''0'') d = Some g \<and>
           s = \<lparr>chain = [g], difficulty = d, pending_transactions = [], mining_reward = 100\<rparr>"
  using create_genesis_block_Some [OF assms [unfolded QuantumBlockchain_def]] by auto

lemma QuantumBlockchain_returns_iff:
  "(\<exists>s. QuantumBlockchain dg now d = Some s) \<longleftrightarrow>
   (\<exists>g. mine_block dg (Block dg 0 now [genesis_transaction] ''0'') d = Some g)"
  by (auto simp: QuantumBlockchain_def create_genesis_block_def split: option.splits)

lemma QuantumBlockchain_genesis:
  assumes "QuantumBlockchain dg now d = Some s"
  shows "length (chain s) = 1" "index (hd (chain s)) = 0" "previous_hash (hd (chain s)) = ''0''"
    "transactions (hd (chain s)) = [genesis_transaction]" "difficulty s = d"
    "pending_transactions s = []" "mining_reward s = 100"
  using QuantumBlockchain_Some [OF assms] by (auto simp: mine_block_fields)

lemma get_latest_block_nonempty: "chain s \<noteq> [] \<Longrightarrow> get_latest_block s = Inr (last (chain s))"
  by (cases "chain s") (simp_all add: get_latest_block_def)

lemma get_latest_block_empty: "chain s = [] \<Longrightarrow> get_latest_block s = Inl IndexError"
  by (simp add: get_latest_block_def)

lemma add_transaction_chain [simp]:
  "chain (snd (add_transaction s tx)) = chain s"
  "difficulty (snd (add_transaction s tx)) = difficulty s"
  "mining_reward (snd (add_transaction s tx)) = mining_reward s"
  by (simp_all add: add_transaction_def)

lemma mine_pending_transactions_cases:
  assumes "mine_pending_transactions dg now s m = Some (r, s')"
  shows "(chain s = [] \<and> r = Inl IndexError \<and> s' = s) \<or>
         (\<exists>nb. chain s \<noteq> [] \<and> r = Inr nb \<and>
            mine_block dg (Block dg (int (length (chain s))) now (pending_transactions s)
              (hash (last (chain s)))) (difficulty s) = Some nb \<and>
            s' = s\<lparr>chain := chain s @ [nb],
                   pending_transactions := [reward_transaction s m]\<rparr>)"
proof (cases "chain s")
  case Nil
  with assms show ?thesis
    by (simp add: mine_pending_transactions_def get_latest_block_def)
next
  case (Cons a as)
  then have ne: "chain s \<noteq> []" by simp
  with assms show ?thesis
    by (auto simp: mine_pending_transactions_def get_latest_block_nonempty split: option.splits)
qed



text \<open>One call extends the chain by at most one block and keeps the configuration.\<close>

lemma exec_call_chain:
  assumes "exec_call dg s c = Some s'"
  shows "difficulty s' = difficulty s \<and> mining_reward s' = mining_reward s \<and>
         (chain s' = chain s \<or>
          (\<exists>nb. chain s \<noteq> [] \<and> chain s' = chain s @ [nb] \<and> index nb = int (length (chain s)) \<and>
                previous_hash nb = hash (last (chain s))))"
proof (cases c)
  case (Add_transaction tx)
  with assms show ?thesis by auto
next
  case (Mine_pending_transactions m now)
  with assms obtain r where r: "mine_pending_transactions dg now s m = Some (r, s')"
    by auto
  from mine_pending_transactions_cases [OF r] show ?thesis
    by (auto simp: mine_block_fields)
qed

subsection \<open>Evaluating the sample run\<close>

lemma zeros_1: "zeros 1 = ''0''"
  by (simp add: zeros_def)

lemma zeros_2: "zeros 2 = ''00''"
  by (simp add: zeros_def numeral_2_eq_2)

lemmas sample_eval = QuantumBlockchain_def create_genesis_block_def mine_block_def mine_loop.simps
  bump_def Block_def calculate_hash_def zeros_1 zeros_2 sample_digest_def genesis_transaction_def
  mine_pending_transactions_def get_latest_block_def add_transaction_def reward_transaction_def
  sample_transaction_def sample_genesis_def sample_block_def sample_ledger0_def
  sample_ledger1_def sample_calls_def Let_def

lemma sample_construction: "QuantumBlockchain sample_digest 0 2 = Some sample_ledger0"
  by (simp add: sample_eval)

lemma sample_add:
  "add_transaction sample_ledger0 sample_transaction =
     (Inr (), sample_ledger0\<lparr>pending_transactions := [sample_transaction]\<rparr>)"
  by (simp add: sample_eval)

lemma sample_mine:
  "mine_pending_transactions sample_digest 1
     (sample_ledger0\<lparr>pending_transactions := [sample_transaction]\<rparr>) ''miner1'' =
   Some (Inr sample_block, sample_ledger1)"
  by (simp add: sample_eval)

lemma sample_run: "run sample_digest sample_ledger0 sample_calls = Some sample_ledger1"
  by (simp add: sample_calls_def sample_add sample_mine)

lemma sample_digest_hexdigest256: "hexdigest256 sample_digest"
  by (simp add: hexdigest256_def sample_digest_def Let_def)

subsection \<open>Invariants of a run\<close>

lemma run_append:
  "run dg s (cs @ cs') = (case run dg s cs of None \<Rightarrow> None | Some s1 \<Rightarrow> run dg s1 cs')"
  by (induction cs arbitrary: s) (auto split: option.splits)

lemma linked_append:
  assumes old: "\<And>i. 0 < i \<Longrightarrow> i < length bs \<Longrightarrow>
       previous_hash (bs ! i) = hash (bs ! (i - 1)) \<and> index (bs ! i) = int i"
    and ne: "bs \<noteq> []"
    and nb: "previous_hash nb = hash (last bs)" "index nb = int (length bs)"
    and i: "0 < i" "i < length (bs @ [nb])"
  shows "previous_hash ((bs @ [nb]) ! i) = hash ((bs @ [nb]) ! (i - 1)) \<and>
         index ((bs @ [nb]) ! i) = int i"
proof (cases "i < length bs")
  case True
  then have "i - 1 < length bs" by simp
  with True i old [of i] show ?thesis by (simp add: nth_append)
next
  case False
  with i have "i = length bs" by simp
  moreover from ne have "length bs - 1 < length bs" by simp
  ultimately show ?thesis using ne nb by (simp add: nth_append last_conv_nth)
qed

lemma exec_call_invariant:
  assumes step: "exec_call dg s c = Some s'"
    and ne: "chain s \<noteq> []"
    and link: "\<And>i. 0 < i \<Longrightarrow> i < length (chain s) \<Longrightarrow>
       previous_hash (chain s ! i) = hash (chain s ! (i - 1)) \<and> index (chain s ! i) = int i"
  shows "chain s' \<noteq> []" "prefix (chain s) (chain s')"
    "\<And>i. 0 < i \<Longrightarrow> i < length (chain s') \<Longrightarrow>
       previous_hash (chain s' ! i) = hash (chain s' ! (i - 1)) \<and> index (chain s' ! i) = int i"
proof -
  from exec_call_chain [OF step] consider
    (same) "chain s' = chain s"
    | (grown) nb where "chain s' = chain s @ [nb]" "index nb = int (length (chain s))"
        "previous_hash nb = hash (last (chain s))"
    by blast
  then have "chain s' \<noteq> [] \<and> prefix (chain s) (chain s') \<and>
    (\<forall>i. 0 < i \<longrightarrow> i < length (chain s') \<longrightarrow>
       previous_hash (chain s' ! i) = hash (chain s' ! (i - 1)) \<and> index (chain s' ! i) = int i)"
  proof cases
    case same
    with ne link show ?thesis by simp
  next
    case grown
    have "previous_hash ((chain s @ [nb]) ! i) = hash ((chain s @ [nb]) ! (i - 1)) \<and>
         index ((chain s @ [nb]) ! i) = int i" if "0 < i" "i < length (chain s @ [nb])" for i
      using link ne grown(3,2) that by (rule linked_append)
    with grown(1) show ?thesis by simp
  qed
  then show "chain s' \<noteq> []" "prefix (chain s) (chain s')"
    "\<And>i. 0 < i \<Longrightarrow> i < length (chain s') \<Longrightarrow>
       previous_hash (chain s' ! i) = hash (chain s' ! (i - 1)) \<and> index (chain s' ! i) = int i"
    by blast+
qed

lemma run_invariant:
  assumes "run dg s cs = Some s'"
    and "chain s \<noteq> []"
    and "\<And>i. 0 < i \<Longrightarrow> i < length (chain s) \<Longrightarrow>
       previous_hash (chain s ! i) = hash (chain s ! (i - 1)) \<and> index (chain s ! i) = int i"
  shows "chain s' \<noteq> [] \<and> prefix (chain s) (chain s') \<and>
    (\<forall>i. 0 < i \<longrightarrow> i < length (chain s') \<longrightarrow>
       previous_hash (chain s' ! i) = hash (chain s' ! (i - 1)) \<and> index (chain s' ! i) = int i)"
  using assms
proof (induction cs arbitrary: s)
  case Nil
  then show ?case by simp
next
  case (Cons c cs)
  from Cons.prems(1) obtain s1 where s1: "exec_call dg s c = Some s1" "run dg s1 cs = Some s'"
    by (auto split: option.splits)
  note inv = exec_call_invariant [OF s1(1) Cons.prems(2) Cons.prems(3)]
  from Cons.IH [OF s1(2) inv(1) inv(3)]
  have "chain s' \<noteq> []" "prefix (chain s1) (chain s')"
    "\<forall>i. 0 < i \<longrightarrow> i < length (chain s') \<longrightarrow>
       previous_hash (chain s' ! i) = hash (chain s' ! (i - 1)) \<and> index (chain s' ! i) = int i"
    by blast+
  moreover from inv(2) \<open>prefix (chain s1) (chain s')\<close> have "prefix (chain s) (chain s')"
    by (rule prefix_order.trans)
  ultimately show ?case by blast
qed

lemma run_from_construction:
  assumes init: "QuantumBlockchain dg now d = Some s0" and run: "run dg s0 cs = Some s"
  shows "chain s \<noteq> [] \<and> prefix (chain s0) (chain s) \<and>
    (\<forall>i. 0 < i \<longrightarrow> i < length (chain s) \<longrightarrow>
       previous_hash (chain s ! i) = hash (chain s ! (i - 1)) \<and> index (chain s ! i) = int i)"
proof (rule run_invariant [OF run])
  from QuantumBlockchain_genesis(1) [OF init] show "chain s0 \<noteq> []" by auto
  fix i assume "0 < i" "i < length (chain s0)"
  with QuantumBlockchain_genesis(1) [OF init]
  show "previous_hash (chain s0 ! i) = hash (chain s0 ! (i - 1)) \<and> index (chain s0 ! i) = int i"
    by simp
qed


subsection \<open>Validation\<close>

text \<open>The three checks \<open>is_chain_valid\<close> makes at position \<open>i\<close>.\<close>

lemma is_chain_valid_loop_iff:
  "is_chain_valid_loop dg s i \<longleftrightarrow>
     (\<forall>j. i \<le> j \<and> j < length (chain s) \<longrightarrow>
        hash (chain s ! j) = calculate_hash dg (chain s ! j) \<and>
        previous_hash (chain s ! j) = hash (chain s ! (j - 1)) \<and>
        startswith (hash (chain s ! j)) (zeros (difficulty s)))"
proof (induction dg s i rule: is_chain_valid_loop.induct)
  case (1 dg s i)
  show ?case
  proof (cases "i < length (chain s)")
    case False
    then have stop: "is_chain_valid_loop dg s i"
      by (subst is_chain_valid_loop.simps) simp
    from False have "\<not> (i \<le> j \<and> j < length (chain s))" for j
      by linarith
    with stop show ?thesis by blast
  next
    case True
    let ?ok = "\<lambda>j. hash (chain s ! j) = calculate_hash dg (chain s ! j) \<and>
        previous_hash (chain s ! j) = hash (chain s ! (j - 1)) \<and>
        startswith (hash (chain s ! j)) (zeros (difficulty s))"
    show ?thesis
    proof (cases "?ok i")
      case False
      with True have "\<not> is_chain_valid_loop dg s i"
        by (subst is_chain_valid_loop.simps) (auto simp: Let_def)
      moreover from False True have "\<not> (\<forall>j. i \<le> j \<and> j < length (chain s) \<longrightarrow> ?ok j)"
        by blast
      ultimately show ?thesis by blast
    next
      case ok: True
      with True have "is_chain_valid_loop dg s i = is_chain_valid_loop dg s (i + 1)"
        by (subst is_chain_valid_loop.simps) (auto simp: Let_def)
      also have "\<dots> \<longleftrightarrow> (\<forall>j. i + 1 \<le> j \<and> j < length (chain s) \<longrightarrow> ?ok j)"
      proof (rule "1.IH" [OF True refl refl])
        from ok show "\<not> hash (chain s ! i) \<noteq> calculate_hash dg (chain s ! i)" by blast
        from ok show "\<not> previous_hash (chain s ! i) \<noteq> hash (chain s ! (i - 1))" by blast
        from ok show "\<not> \<not> startswith (hash (chain s ! i)) (zeros (difficulty s))" by blast
      qed
      also have "\<dots> \<longleftrightarrow> (\<forall>j. i \<le> j \<and> j < length (chain s) \<longrightarrow> ?ok j)"
      proof
        assume a: "\<forall>j. i + 1 \<le> j \<and> j < length (chain s) \<longrightarrow> ?ok j"
        show "\<forall>j. i \<le> j \<and> j < length (chain s) \<longrightarrow> ?ok j"
        proof (intro allI impI)
          fix j assume j: "i \<le> j \<and> j < length (chain s)"
          show "?ok j"
          proof (cases "j = i")
            case True
            with ok show ?thesis by blast
          next
            case False
            with j have "i + 1 \<le> j \<and> j < length (chain s)" by simp
            with a show ?thesis by blast
          qed
        qed
      next
        assume b: "\<forall>j. i \<le> j \<and> j < length (chain s) \<longrightarrow> ?ok j"
        show "\<forall>j. i + 1 \<le> j \<and> j < length (chain s) \<longrightarrow> ?ok j"
        proof (intro allI impI)
          fix j assume "i + 1 \<le> j \<and> j < length (chain s)"
          then have "i \<le> j \<and> j < length (chain s)" by simp
          with b show "?ok j" by blast
        qed
      qed
      finally show ?thesis .
    qed
  qed
qed

lemma is_chain_valid_iff:
  "is_chain_valid dg s \<longleftrightarrow>
     (\<forall>i. 1 \<le> i \<and> i < length (chain s) \<longrightarrow>
        hash (chain s ! i) = calculate_hash dg (chain s ! i) \<and>
        previous_hash (chain s ! i) = hash (chain s ! (i - 1)) \<and>
        startswith (hash (chain s ! i)) (zeros (difficulty s)))"
  unfolding is_chain_valid_def by (rule is_chain_valid_loop_iff)

lemma is_chain_valid_genesis_unchecked:
  assumes "hash g' = hash g"
  shows "is_chain_valid dg (s\<lparr>chain := g' # bs\<rparr>) = is_chain_valid dg (s\<lparr>chain := g # bs\<rparr>)"
proof -
  have "hash ((g' # bs) ! (i - 1)) = hash ((g # bs) ! (i - 1))" if "1 \<le> i" for i
    using that assms by (cases "i - 1") simp_all
  moreover have "(g' # bs) ! i = (g # bs) ! i" if "1 \<le> i" for i
    using that by (cases i) simp_all
  ultimately show ?thesis
    by (simp add: is_chain_valid_iff)
qed

lemma sample_is_chain_valid: "is_chain_valid sample_digest sample_ledger1"
proof -
  have "i = 1" if "1 \<le> i \<and> i < length (chain sample_ledger1)" for i
    using that by (simp add: sample_ledger1_def)
  moreover have "hash (chain sample_ledger1 ! 1) = calculate_hash sample_digest (chain sample_ledger1 ! 1)"
    "previous_hash (chain sample_ledger1 ! 1) = hash (chain sample_ledger1 ! (1 - 1))"
    "startswith (hash (chain sample_ledger1 ! 1)) (zeros (difficulty sample_ledger1))"
    by (simp_all add: sample_eval)
  ultimately show ?thesis
    unfolding is_chain_valid_iff by blast
qed

subsection \<open>Balances\<close>












subsection \<open>When mining returns\<close>

lemma mine_block_returns_iff_nonce:
  "(\<exists>b'. mine_block dg b d = Some b') \<longleftrightarrow>
     startswith (hash b) (zeros d) \<or>
     (\<exists>k > 0. startswith
        (dg (index b) (timestamp b) (transactions b) (previous_hash b) (nonce b + int k))
        (zeros d))"
proof -
  have "(\<exists>k. startswith (hash ((bump dg ^^ k) b)) (zeros d)) \<longleftrightarrow>
     startswith (hash b) (zeros d) \<or>
     (\<exists>k > 0. startswith (hash ((bump dg ^^ k) b)) (zeros d))"
  proof
    assume "\<exists>k. startswith (hash ((bump dg ^^ k) b)) (zeros d)"
    then obtain k where k: "startswith (hash ((bump dg ^^ k) b)) (zeros d)" ..
    show "startswith (hash b) (zeros d) \<or>
     (\<exists>k > 0. startswith (hash ((bump dg ^^ k) b)) (zeros d))"
    proof (cases "k = 0")
      case True
      with k show ?thesis by simp
    next
      case False
      with k show ?thesis by blast
    qed
  next
    assume "startswith (hash b) (zeros d) \<or>
     (\<exists>k > 0. startswith (hash ((bump dg ^^ k) b)) (zeros d))"
    then show "\<exists>k. startswith (hash ((bump dg ^^ k) b)) (zeros d)"
    proof
      assume "startswith (hash b) (zeros d)"
      then have "startswith (hash ((bump dg ^^ 0) b)) (zeros d)" by simp
      then show ?thesis ..
    next
      assume "\<exists>k > 0. startswith (hash ((bump dg ^^ k) b)) (zeros d)"
      then show ?thesis by blast
    qed
  qed
  then show ?thesis
    by (simp add: mine_block_returns_iff bump_pow_hash_digest cong: conj_cong)
qed

lemma sample_digest_length: "length (sample_digest i ts txs p n) = 64"
  by (simp add: sample_digest_def Let_def)


subsection \<open>Changing one block of a valid chain\<close>





section \<open>The claims\<close>

text \<open>
  C1. After construction and any sequence of \<open>add_transaction\<close> and
  \<open>mine_pending_transactions\<close> calls that return, every block after the first names the hash
  of its predecessor as its \<open>previous_hash\<close> and carries its position as its \<open>index\<close>; and the
  chain at any earlier point of the sequence is an initial segment of the chain at the end,
  so blocks are only ever appended.
\<close>

theorem chain_linked_append_only:
  assumes "QuantumBlockchain dg now d = Some s0"
    and "run dg s0 (cs @ cs') = Some s'"
  shows "\<exists>s. run dg s0 cs = Some s \<and> prefix (chain s) (chain s') \<and>
           (\<forall>i. 0 < i \<and> i < length (chain s') \<longrightarrow>
              previous_hash (chain s' ! i) = hash (chain s' ! (i - 1)) \<and>
              index (chain s' ! i) = int i)"
proof -
  from assms(2) obtain s where s: "run dg s0 cs = Some s" "run dg s cs' = Some s'"
    by (auto simp: run_append split: option.splits)
  from run_from_construction [OF assms(1) s(1)]
  have "prefix (chain s) (chain s')"
    using run_invariant [OF s(2)] by blast
  moreover from run_from_construction [OF assms]
  have "\<forall>i. 0 < i \<and> i < length (chain s') \<longrightarrow>
              previous_hash (chain s' ! i) = hash (chain s' ! (i - 1)) \<and>
              index (chain s' ! i) = int i"
    by blast
  ultimately show ?thesis using s(1) by blast
qed

theorem chain_linked_append_only_witness:
  "QuantumBlockchain sample_digest 0 2 = Some sample_ledger0 \<and>
   run sample_digest sample_ledger0
     ([Add_transaction sample_transaction] @ [Mine_pending_transactions ''miner1'' 1]) =
     Some sample_ledger1 \<and>
   (\<exists>s. run sample_digest sample_ledger0 [Add_transaction sample_transaction] = Some s \<and>
        prefix (chain s) (chain sample_ledger1) \<and>
        (\<forall>i. 0 < i \<and> i < length (chain sample_ledger1) \<longrightarrow>
           previous_hash (chain sample_ledger1 ! i) = hash (chain sample_ledger1 ! (i - 1)) \<and>
           index (chain sample_ledger1 ! i) = int i))"
proof -
  have r: "run sample_digest sample_ledger0
     ([Add_transaction sample_transaction] @ [Mine_pending_transactions ''miner1'' 1]) =
     Some sample_ledger1"
    using sample_run by (simp add: sample_calls_def)
  from chain_linked_append_only [OF sample_construction r] sample_construction r
  show ?thesis by blast
qed

text \<open>
  C2. \<open>is_chain_valid\<close> returns true exactly when every block from position 1 on has a stored
  hash equal to the digest of its stored fields, names the stored hash of its predecessor,
  and has at least \<open>difficulty\<close> leading zeros in its hash. Of the first block only the
  stored hash is read: replacing it by any block with the same hash leaves the verdict as it
  is. The function returns a verdict and nothing else.
\<close>

theorem is_chain_valid_iff_three_checks:
  "(is_chain_valid dg s \<longleftrightarrow>
      (\<forall>i. 1 \<le> i \<and> i < length (chain s) \<longrightarrow>
         hash (chain s ! i) = calculate_hash dg (chain s ! i) \<and>
         previous_hash (chain s ! i) = hash (chain s ! (i - 1)) \<and>
         difficulty s \<le> int (leading_zeros (hash (chain s ! i))))) \<and>
   (\<forall>g g' bs. hash g' = hash g \<longrightarrow>
      is_chain_valid dg (s\<lparr>chain := g' # bs\<rparr>) = is_chain_valid dg (s\<lparr>chain := g # bs\<rparr>))"
proof (rule conjI)
  show "is_chain_valid dg s \<longleftrightarrow>
      (\<forall>i. 1 \<le> i \<and> i < length (chain s) \<longrightarrow>
         hash (chain s ! i) = calculate_hash dg (chain s ! i) \<and>
         previous_hash (chain s ! i) = hash (chain s ! (i - 1)) \<and>
         difficulty s \<le> int (leading_zeros (hash (chain s ! i))))"
    by (simp only: is_chain_valid_iff startswith_zeros_leading)
  show "\<forall>g g' bs. hash g' = hash g \<longrightarrow>
      is_chain_valid dg (s\<lparr>chain := g' # bs\<rparr>) = is_chain_valid dg (s\<lparr>chain := g # bs\<rparr>)"
    using is_chain_valid_genesis_unchecked by blast
qed

theorem is_chain_valid_iff_three_checks_witness:
  "is_chain_valid sample_digest sample_ledger1 \<and>
   hash (chain sample_ledger1 ! 1) = calculate_hash sample_digest (chain sample_ledger1 ! 1) \<and>
   previous_hash (chain sample_ledger1 ! 1) = hash (chain sample_ledger1 ! 0) \<and>
   difficulty sample_ledger1 \<le> int (leading_zeros (hash (chain sample_ledger1 ! 1))) \<and>
   is_chain_valid sample_digest
     (sample_ledger1\<lparr>chain := sample_genesis\<lparr>nonce := 7\<rparr> # [sample_block]\<rparr>)"
proof -
  have one: "(1::nat) \<le> 1 \<and> 1 < length (chain sample_ledger1)"
    by (simp add: sample_ledger1_def)
  have same: "hash (sample_genesis\<lparr>nonce := 7\<rparr>) = hash sample_genesis"
    by simp
  have whole: "sample_ledger1\<lparr>chain := sample_genesis # [sample_block]\<rparr> = sample_ledger1"
    by (simp add: sample_ledger1_def)
  note inst = is_chain_valid_iff_three_checks [of sample_digest sample_ledger1]
  from inst sample_is_chain_valid one
  have "hash (chain sample_ledger1 ! 1) = calculate_hash sample_digest (chain sample_ledger1 ! 1) \<and>
     previous_hash (chain sample_ledger1 ! 1) = hash (chain sample_ledger1 ! (1 - 1)) \<and>
     difficulty sample_ledger1 \<le> int (leading_zeros (hash (chain sample_ledger1 ! 1)))"
    by blast
  note checks = this [unfolded diff_self_eq_0]
  from inst same
  have "is_chain_valid sample_digest (sample_ledger1\<lparr>chain := sample_genesis\<lparr>nonce := 7\<rparr> # [sample_block]\<rparr>) =
        is_chain_valid sample_digest (sample_ledger1\<lparr>chain := sample_genesis # [sample_block]\<rparr>)"
    by blast
  with sample_is_chain_valid
  have "is_chain_valid sample_digest (sample_ledger1\<lparr>chain := sample_genesis\<lparr>nonce := 7\<rparr> # [sample_block]\<rparr>)"
    by (simp only: whole)
  with checks sample_is_chain_valid show ?thesis
    by blast
qed








text \<open>
  C6. \<open>add_transaction\<close> raises (a \<open>ValueError\<close>) exactly when one of the keys \<open>from\<close>, \<open>to\<close>,
  \<open>amount\<close> is missing from the transaction; when it raises the ledger is unchanged, and
  otherwise the transaction is appended as it is to the end of the pool, whatever its values.
\<close>

theorem add_transaction_raises_iff_missing:
  "(fst (add_transaction s tx) = Inl ValueError \<longleftrightarrow>
      ''from'' \<notin> dom tx \<or> ''to'' \<notin> dom tx \<or> ''amount'' \<notin> dom tx) \<and>
   (fst (add_transaction s tx) = Inl ValueError \<longrightarrow> snd (add_transaction s tx) = s) \<and>
   (fst (add_transaction s tx) \<noteq> Inl ValueError \<longrightarrow>
      add_transaction s tx =
        (Inr (), s\<lparr>pending_transactions := pending_transactions s @ [tx]\<rparr>))"
  by (auto simp: add_transaction_def)

theorem add_transaction_raises_iff_missing_witness:
  "add_transaction sample_ledger1 [''to'' \<mapsto> VStr ''x'', ''amount'' \<mapsto> VInt 5] =
     (Inl ValueError, sample_ledger1) \<and>
   add_transaction sample_ledger1
     [''from'' \<mapsto> VStr ''bob'', ''to'' \<mapsto> VStr ''alice'', ''amount'' \<mapsto> VInt (- 100)] =
     (Inr (), sample_ledger1\<lparr>pending_transactions := pending_transactions sample_ledger1 @
        [[''from'' \<mapsto> VStr ''bob'', ''to'' \<mapsto> VStr ''alice'', ''amount'' \<mapsto> VInt (- 100)]]\<rparr>)"
proof -
  let ?bad = "[''to'' \<mapsto> VStr ''x'', ''amount'' \<mapsto> VInt 5]"
  let ?good = "[''from'' \<mapsto> VStr ''bob'', ''to'' \<mapsto> VStr ''alice'', ''amount'' \<mapsto> VInt (- 100)]"
  have missing: "''from'' \<notin> dom ?bad" by simp
  have present: "\<not> (''from'' \<notin> dom ?good \<or> ''to'' \<notin> dom ?good \<or> ''amount'' \<notin> dom ?good)"
    by simp
  from add_transaction_raises_iff_missing [of sample_ledger1 ?bad] missing
  have "fst (add_transaction sample_ledger1 ?bad) = Inl ValueError"
    "snd (add_transaction sample_ledger1 ?bad) = sample_ledger1"
    by blast+
  then have "add_transaction sample_ledger1 ?bad = (Inl ValueError, sample_ledger1)"
    by (simp add: prod_eq_iff)
  moreover from add_transaction_raises_iff_missing [of sample_ledger1 ?good] present
  have "add_transaction sample_ledger1 ?good =
     (Inr (), sample_ledger1\<lparr>pending_transactions := pending_transactions sample_ledger1 @ [?good]\<rparr>)"
    by blast
  ultimately show ?thesis by simp
qed

text \<open>
  C7, as the code has it. \<open>add_transaction\<close> accepts a transaction exactly when it has the
  three keys \<open>from\<close>, \<open>to\<close> and \<open>amount\<close>; the values under them are not looked at.
\<close>

theorem add_transaction_accepts_iff_keys:
  "fst (add_transaction s tx) = Inr () \<longleftrightarrow> {''from'', ''to'', ''amount''} \<subseteq> dom tx"
  by (auto simp: add_transaction_def)

text \<open>
  C7 as stated fails: a transaction with empty \<open>from\<close> and \<open>to\<close> and a string for its amount is
  accepted into the pool.
\<close>

theorem add_transaction_accepts_empty_fields:
  "add_transaction sample_ledger0
     [''from'' \<mapsto> VStr '''', ''to'' \<mapsto> VStr '''', ''amount'' \<mapsto> VStr ''abc''] =
   (Inr (), sample_ledger0\<lparr>pending_transactions :=
      [[''from'' \<mapsto> VStr '''', ''to'' \<mapsto> VStr '''', ''amount'' \<mapsto> VStr ''abc'']]\<rparr>)"
  by (simp add: add_transaction_def sample_ledger0_def)




text \<open>
  C9, as the code has it. \<open>mine_block\<close> returns exactly when the stored hash has the prefix or
  some later nonce gives a digest that has it. It returns at once for a difficulty of 0 or
  less. It never returns when the difficulty exceeds 64, the length of the hex digest, and
  the stored hash is no longer than a digest.
\<close>

theorem mine_block_returns_iff_solvable:
  "((\<exists>b'. mine_block dg b d = Some b') \<longleftrightarrow>
      startswith (hash b) (zeros d) \<or>
      (\<exists>k > 0. startswith
         (dg (index b) (timestamp b) (transactions b) (previous_hash b) (nonce b + int k))
         (zeros d))) \<and>
   (d \<le> 0 \<longrightarrow> mine_block dg b d = Some b) \<and>
   ((\<forall>i ts txs p n. length (dg i ts txs p n) = 64) \<and> length (hash b) \<le> 64 \<and> 64 < d \<longrightarrow>
      mine_block dg b d = None)"
proof (intro conjI impI)
  show "(\<exists>b'. mine_block dg b d = Some b') \<longleftrightarrow>
      startswith (hash b) (zeros d) \<or>
      (\<exists>k > 0. startswith
         (dg (index b) (timestamp b) (transactions b) (previous_hash b) (nonce b + int k))
         (zeros d))"
    by (rule mine_block_returns_iff_nonce)
next
  assume "d \<le> 0"
  then show "mine_block dg b d = Some b" by (rule mine_block_zero)
next
  assume "(\<forall>i ts txs p n. length (dg i ts txs p n) = 64) \<and> length (hash b) \<le> 64 \<and> 64 < d"
  then show "mine_block dg b d = None"
    by (intro mine_block_too_hard) simp_all
qed

theorem mine_block_returns_iff_solvable_witness:
  "(\<exists>b'. mine_block sample_digest (Block sample_digest 0 0 [genesis_transaction] ''0'') 2 = Some b') \<and>
   mine_block sample_digest sample_block 0 = Some sample_block \<and>
   mine_block sample_digest sample_block 65 = None"
proof -
  let ?b = "Block sample_digest 0 0 [genesis_transaction] ''0''"
  have "(0::nat) < 1 \<and> startswith
         (sample_digest (index ?b) (timestamp ?b) (transactions ?b) (previous_hash ?b)
            (nonce ?b + int 1)) (zeros 2)"
    by (simp add: sample_eval)
  then have "\<exists>k > 0. startswith
         (sample_digest (index ?b) (timestamp ?b) (transactions ?b) (previous_hash ?b)
            (nonce ?b + int k)) (zeros 2)"
    by blast
  with mine_block_returns_iff_solvable [of sample_digest ?b 2]
  have "\<exists>b'. mine_block sample_digest ?b 2 = Some b'"
    by blast
  moreover have "mine_block sample_digest sample_block 0 = Some sample_block"
    using mine_block_returns_iff_solvable [of sample_digest sample_block 0] by simp
  moreover have "(\<forall>i ts txs p n. length (sample_digest i ts txs p n) = 64) \<and>
      length (hash sample_block) \<le> 64 \<and> (64::int) < 65"
    by (simp add: sample_digest_length sample_block_def)
  with mine_block_returns_iff_solvable [of sample_digest sample_block 65]
  have "mine_block sample_digest sample_block 65 = None"
    by blast
  ultimately show ?thesis by blast
qed

text \<open>
  C9 as stated fails: with difficulty 65 the target is longer than any digest, the loop of
  \<open>mine_block\<close> never exits, and so the constructor never returns. Only the length of the
  digest matters here; \<open>mine_block_too_hard\<close> is the same fact for every digest of 64 characters.
\<close>

theorem mining_at_difficulty_65_diverges:
  "mine_block sample_digest (Block sample_digest 0 0 [genesis_transaction] ''0'') 65 = None \<and>
   QuantumBlockchain sample_digest 0 65 = None"
proof -
  have "mine_block sample_digest (Block sample_digest 0 0 [genesis_transaction] ''0'') 65 = None"
    by (rule mine_block_too_hard) (simp_all add: sample_digest_length)
  then show ?thesis
    by (simp add: QuantumBlockchain_def create_genesis_block_def)
qed

text \<open>
  C10. In every ledger reached from the constructor by calls of the public interface the chain
  is not empty, so \<open>get_latest_block\<close> returns its last block and does not raise; the
  constructor leaves a chain of exactly one block, whose \<open>previous_hash\<close> is \<open>"0"\<close>, whose index
  is 0 and whose hash meets the difficulty.
\<close>

theorem chain_never_empty:
  assumes "QuantumBlockchain dg now d = Some s0"
    and "run dg s0 cs = Some s"
  shows "chain s \<noteq> [] \<and> get_latest_block s = Inr (last (chain s)) \<and>
         length (chain s0) = 1 \<and> previous_hash (hd (chain s0)) = ''0'' \<and>
         index (hd (chain s0)) = 0 \<and> startswith (hash (hd (chain s0))) (zeros d)"
proof -
  from run_from_construction [OF assms] have ne: "chain s \<noteq> []" by blast
  from QuantumBlockchain_Some [OF assms(1)] obtain g where
    g: "mine_block dg (Block dg 0 now [genesis_transaction] ''0'') d = Some g" "chain s0 = [g]"
    by auto
  from g have "startswith (hash (hd (chain s0))) (zeros d)"
    by (simp add: mine_block_prefix)
  with ne QuantumBlockchain_genesis [OF assms(1)] show ?thesis
    by (simp add: get_latest_block_nonempty)
qed

theorem chain_never_empty_witness:
  "QuantumBlockchain sample_digest 0 2 = Some sample_ledger0 \<and>
   run sample_digest sample_ledger0 sample_calls = Some sample_ledger1 \<and>
   chain sample_ledger1 \<noteq> [] \<and> get_latest_block sample_ledger1 = Inr sample_block \<and>
   length (chain sample_ledger0) = 1 \<and> previous_hash (hd (chain sample_ledger0)) = ''0''"
  using chain_never_empty [OF sample_construction sample_run] sample_construction sample_run
  by (simp add: sample_ledger1_def)

end
